theory Spec2Isabelle
  imports Main "HOL-Library.Word" "HOL-Library.Sublist"
begin

unbundle bit_operations_syntax

section \<open>The PrivacyPollsFHE contract\<close>

text \<open>
  The contract of \<open>src/unnamed/part_000\<close> (Solidity 0.8): a ledger of encrypted votes,
  per-choice encrypted counters, and the request/callback pair of the decryption oracle.
  Storage is a record that every function takes and returns; a revert is the \<open>Inl\<close> of a
  sum, so a reverted call has no successor state.
\<close>

subsection \<open>Data\<close>

type_synonym uint256 = "256 word"
type_synonym uint32 = "32 word"
type_synonym bytes32 = "256 word"
type_synonym bytes = "8 word list"

text \<open>\<open>euint32\<close> is a user-defined value type over \<open>bytes32\<close>: a handle of a ciphertext.\<close>

type_synonym euint32 = "256 word"

record EncryptedVote =
  voterId :: uint256
  encryptedChoice :: euint32
  timestamp :: uint256

datatype event =
    VoteSubmitted uint256 uint256
  | DecryptionRequested uint256
  | VoteCountDecrypted bytes uint32

text \<open>
  The ways a call reverts: \<open>revert("Choice not found")\<close> (also the \<open>require\<close> of the same
  message), the revert of \<open>FHE.checkSignatures\<close>, the overflow panic of checked arithmetic,
  and a failing \<open>abi.decode\<close>.
\<close>

datatype error = ChoiceNotFound | InvalidSignatures | ArithmeticOverflow | AbiDecodeError

text \<open>
  The FHE library and \<open>keccak256\<close> are not part of the repository: their pure operations are
  a parameter of every function that calls them. \<open>fhe_decrypt\<close> is the plaintext behind a
  handle, which only the decryption oracle can compute; the contract never calls it, the
  properties about counts do. The operations are total: the access control that the library
  keeps on handles is left out.
\<close>

record fhe =
  fhe_asEuint32 :: "uint32 \<Rightarrow> euint32"
  fhe_add :: "euint32 \<Rightarrow> euint32 \<Rightarrow> euint32"
  fhe_verifySignatures :: "bytes32 list \<Rightarrow> bytes \<Rightarrow> bytes \<Rightarrow> bool"
  fhe_decrypt :: "euint32 \<Rightarrow> uint32"
  keccak256 :: "bytes \<Rightarrow> bytes32"

text \<open>
  The storage of the contract. \<open>counterRequest\<close> and \<open>requestedHandles\<close> are the part of
  the storage that the FHE library keeps for pending decryptions; \<open>events\<close> is the log.
\<close>

record storage =
  voteCount :: uint256
  encryptedVotes :: "uint256 \<Rightarrow> EncryptedVote"
  encryptedChoiceCount :: "bytes \<Rightarrow> euint32"
  choiceList :: "bytes list"
  decryptionRequests :: "uint256 \<Rightarrow> uint256"
  counterRequest :: uint256
  requestedHandles :: "uint256 \<Rightarrow> bytes32 list"
  events :: "event list"

definition deployed :: storage where
  "deployed = \<lparr> voteCount = 0,
      encryptedVotes = (\<lambda>_. \<lparr> voterId = 0, encryptedChoice = 0, timestamp = 0 \<rparr>),
      encryptedChoiceCount = (\<lambda>_. 0),
      choiceList = [],
      decryptionRequests = (\<lambda>_. 0),
      counterRequest = 0,
      requestedHandles = (\<lambda>_. []),
      events = [] \<rparr>"

subsection \<open>Library calls\<close>

text \<open>
  Modelled from the spec: \<open>FHE.isInitialized\<close> and \<open>FHE.toBytes32\<close> (library code), the
  capability \<open>isInitialized(ciphertext_handle) -> bool\<close>. A slot of a mapping that was never
  written holds the zero handle, which is the uninitialized one.
\<close>

definition isInitialized :: "euint32 \<Rightarrow> bool" where
  "isInitialized v = (v \<noteq> 0)"

definition toBytes32 :: "euint32 \<Rightarrow> bytes32" where
  "toBytes32 v = v"

text \<open>
  Modelled from the spec: \<open>FHE.requestDecryption\<close> (library code): it "generates a fresh
  unique request_id" and "submits the tally's ciphertext handle to the external oracle".
  The identifier is the library's counter, incremented with checked arithmetic; the handles
  are kept under the identifier for the verification of the callback.
\<close>

definition FHE_requestDecryption :: "storage \<Rightarrow> bytes32 list \<Rightarrow> error + (uint256 \<times> storage)" where
  "FHE_requestDecryption s ciphertexts =
     (if counterRequest s = - 1 then Inl ArithmeticOverflow
      else Inr (counterRequest s,
                s\<lparr> requestedHandles := (requestedHandles s)(counterRequest s := ciphertexts),
                   counterRequest := counterRequest s + 1 \<rparr>))"

text \<open>
  Modelled from the spec: \<open>FHE.checkSignatures\<close> (library code): the "proof must validate
  against cleartext and the oracle's public verification material"; the signatures cover the
  handles that were submitted under the request.
\<close>

definition FHE_checkSignatures :: "fhe \<Rightarrow> storage \<Rightarrow> uint256 \<Rightarrow> bytes \<Rightarrow> bytes \<Rightarrow> bool" where
  "FHE_checkSignatures F s requestId cleartexts prf =
     fhe_verifySignatures F (requestedHandles s requestId) cleartexts prf"

subsection \<open>Helpers of the contract\<close>

text \<open>\<open>b[i]\<close>: byte \<open>i\<close> of a \<open>bytes32\<close>, the most significant byte first.\<close>

definition byte_at :: "bytes32 \<Rightarrow> nat \<Rightarrow> 8 word" where
  "byte_at b i = ucast (drop_bit (8 * (31 - i)) b)"

definition bytes32ToString :: "bytes32 \<Rightarrow> bytes" where
  "bytes32ToString b = map (byte_at b) [0..<32]"

definition bytes32ToUint :: "bytes32 \<Rightarrow> uint256" where
  "bytes32ToUint b = b"

text \<open>The loop of \<open>getChoiceFromHash\<close> over \<open>choiceList\<close>: the first entry whose hash matches.\<close>

primrec getChoiceFromHash_loop :: "fhe \<Rightarrow> bytes list \<Rightarrow> uint256 \<Rightarrow> error + bytes" where
  "getChoiceFromHash_loop F [] hash = Inl ChoiceNotFound"
| "getChoiceFromHash_loop F (c # cs) hash =
     (if bytes32ToUint (keccak256 F c) = hash then Inr c
      else getChoiceFromHash_loop F cs hash)"

definition getChoiceFromHash :: "fhe \<Rightarrow> storage \<Rightarrow> uint256 \<Rightarrow> error + bytes" where
  "getChoiceFromHash F s hash = getChoiceFromHash_loop F (choiceList s) hash"

text \<open>
  \<open>abi.decode(cleartexts, (uint32))\<close>: the first 32-byte word, big-endian; it reverts when
  the data is shorter than a word or the word does not fit 32 bits.
\<close>

definition be_word :: "bytes \<Rightarrow> uint256" where
  "be_word bs = foldl (\<lambda>acc b. push_bit 8 acc OR ucast b) 0 bs"

definition abi_decode_uint32 :: "bytes \<Rightarrow> uint32 option" where
  "abi_decode_uint32 cleartexts =
     (if length cleartexts < 32 then None
      else let w = be_word (take 32 cleartexts)
           in if w \<le> 0xFFFFFFFF then Some (ucast w) else None)"

subsection \<open>The functions of the contract\<close>

definition choiceKey :: "euint32 \<Rightarrow> bytes" where
  "choiceKey h = bytes32ToString (toBytes32 h)"

definition submitEncryptedVote ::
    "fhe \<Rightarrow> storage \<Rightarrow> uint256 \<Rightarrow> euint32 \<Rightarrow> uint256 \<Rightarrow> error + storage" where
  "submitEncryptedVote F s voter enc now =
     (if voteCount s = - 1 then Inl ArithmeticOverflow
      else
        let s1 = s\<lparr> voteCount := voteCount s + 1 \<rparr>;
            s2 = s1\<lparr> encryptedVotes := (encryptedVotes s1)(voteCount s1 :=
                       \<lparr> voterId = voter, encryptedChoice = enc, timestamp = now \<rparr>) \<rparr>;
            s3 = (if \<not> isInitialized (encryptedChoiceCount s2 (choiceKey enc))
                  then let choiceStr = choiceKey enc
                       in s2\<lparr> encryptedChoiceCount :=
                                 (encryptedChoiceCount s2)(choiceStr := fhe_asEuint32 F 0),
                               choiceList := choiceList s2 @ [choiceStr] \<rparr>
                  else s2)
        in Inr (s3\<lparr> events := events s3 @ [VoteSubmitted voter now] \<rparr>))"

text \<open>The body of the loop of \<open>aggregateVotes\<close> at index \<open>i\<close>, and the loop from \<open>i\<close> on.\<close>

definition aggregate_body :: "fhe \<Rightarrow> storage \<Rightarrow> uint256 \<Rightarrow> storage" where
  "aggregate_body F s i =
     (let v = encryptedVotes s (i + 1);
          choiceStr = choiceKey (encryptedChoice v)
      in s\<lparr> encryptedChoiceCount := (encryptedChoiceCount s)(choiceStr :=
               fhe_add F (encryptedChoiceCount s choiceStr) (fhe_asEuint32 F 1)) \<rparr>)"

function aggregate_loop :: "fhe \<Rightarrow> storage \<Rightarrow> uint256 \<Rightarrow> storage" where
  "aggregate_loop F s i =
     (if i < voteCount s then aggregate_loop F (aggregate_body F s i) (i + 1) else s)"
  by pat_completeness auto
termination
proof (relation "measure (\<lambda>(F, s, i). unat (voteCount s) - unat i)")
  show "wf (measure (\<lambda>(F, s, i). unat (voteCount s) - unat i))"
    by simp
next
  fix F :: fhe and s :: storage and i :: uint256
  assume less: "i < voteCount s"
  then have "i \<noteq> - 1"
    by (metis word_order.extremum_strict)
  then have "1 + i \<noteq> 0"
    by (metis add_eq_0_iff)
  then have "unat (i + 1) = Suc (unat i)"
    using unatSuc [of i] by (simp add: add.commute)
  moreover have "unat i < unat (voteCount s)"
    using less by (simp add: word_less_nat_alt)
  moreover have "voteCount (aggregate_body F s i) = voteCount s"
    by (simp add: aggregate_body_def Let_def)
  ultimately show "((F, aggregate_body F s i, i + 1), (F, s, i))
      \<in> measure (\<lambda>(F, s, i). unat (voteCount s) - unat i)"
    by simp
qed

definition aggregateVotes :: "fhe \<Rightarrow> storage \<Rightarrow> error + storage" where
  "aggregateVotes F s = Inr (aggregate_loop F s 0)"

definition requestChoiceDecryption :: "fhe \<Rightarrow> storage \<Rightarrow> bytes \<Rightarrow> error + storage" where
  "requestChoiceDecryption F s choice =
     (let count = encryptedChoiceCount s choice
      in if \<not> isInitialized count then Inl ChoiceNotFound
         else
           let ciphertexts = [toBytes32 count]
           in case FHE_requestDecryption s ciphertexts of
                Inl e \<Rightarrow> Inl e
              | Inr (reqId, s1) \<Rightarrow>
                  Inr (s1\<lparr> decryptionRequests :=
                             (decryptionRequests s1)(reqId := bytes32ToUint (keccak256 F choice)),
                           events := events s1 @ [DecryptionRequested reqId] \<rparr>))"

definition decryptChoiceCount ::
    "fhe \<Rightarrow> storage \<Rightarrow> uint256 \<Rightarrow> bytes \<Rightarrow> bytes \<Rightarrow> error + storage" where
  "decryptChoiceCount F s requestId cleartexts prf =
     (let choiceHash = decryptionRequests s requestId
      in case getChoiceFromHash F s choiceHash of
           Inl e \<Rightarrow> Inl e
         | Inr choice \<Rightarrow>
             if \<not> FHE_checkSignatures F s requestId cleartexts prf then Inl InvalidSignatures
             else (case abi_decode_uint32 cleartexts of
                     None \<Rightarrow> Inl AbiDecodeError
                   | Some count \<Rightarrow>
                       Inr (s\<lparr> events := events s @ [VoteCountDecrypted choice count] \<rparr>)))"

definition getEncryptedChoiceCount :: "storage \<Rightarrow> bytes \<Rightarrow> euint32" where
  "getEncryptedChoiceCount s choice = encryptedChoiceCount s choice"

definition getChoiceList :: "storage \<Rightarrow> bytes list" where
  "getChoiceList s = choiceList s"

subsection \<open>Transactions\<close>

text \<open>
  A transaction is one external call; \<open>Submit\<close> carries the \<open>block.timestamp\<close> of its block.
  A call that reverts leaves the storage as it was.
\<close>

datatype call =
    Submit uint256 euint32 uint256
  | Aggregate
  | Request bytes
  | Callback uint256 bytes bytes

fun exec :: "fhe \<Rightarrow> storage \<Rightarrow> call \<Rightarrow> error + storage" where
  "exec F s (Submit voter enc now) = submitEncryptedVote F s voter enc now"
| "exec F s Aggregate = aggregateVotes F s"
| "exec F s (Request choice) = requestChoiceDecryption F s choice"
| "exec F s (Callback requestId cleartexts prf) = decryptChoiceCount F s requestId cleartexts prf"

definition transact :: "fhe \<Rightarrow> storage \<Rightarrow> call \<Rightarrow> storage" where
  "transact F s c = (case exec F s c of Inl e \<Rightarrow> s | Inr s' \<Rightarrow> s')"

primrec run :: "fhe \<Rightarrow> storage \<Rightarrow> call list \<Rightarrow> storage" where
  "run F s [] = s"
| "run F s (c # cs) = run F (transact F s c) cs"


subsection \<open>What is assumed of the FHE library\<close>

text \<open>
  The library never returns the zero handle, and addition of handles is addition of the
  plaintexts (of \<open>uint32\<close>, so modulo \<open>2 ^ 32\<close>).
\<close>

definition fhe_handles_initialized :: "fhe \<Rightarrow> bool" where
  "fhe_handles_initialized F \<longleftrightarrow>
     (\<forall>v. isInitialized (fhe_asEuint32 F v)) \<and> (\<forall>a b. isInitialized (fhe_add F a b))"

definition fhe_homomorphic :: "fhe \<Rightarrow> bool" where
  "fhe_homomorphic F \<longleftrightarrow>
     (\<forall>v. fhe_decrypt F (fhe_asEuint32 F v) = v) \<and>
     (\<forall>a b. fhe_decrypt F (fhe_add F a b) = fhe_decrypt F a + fhe_decrypt F b)"


subsection \<open>The ledger as a list\<close>

text \<open>
  Entry \<open>j\<close> of the ledger, counted from 0, is \<open>encryptedVotes[j + 1]\<close>; \<open>vote_key\<close> is the
  string under which \<open>aggregateVotes\<close> counts it.
\<close>

definition vote_key :: "storage \<Rightarrow> nat \<Rightarrow> bytes" where
  "vote_key s j = choiceKey (encryptedChoice (encryptedVotes s (of_nat j + 1)))"

definition ledger_keys :: "storage \<Rightarrow> bytes list" where
  "ledger_keys s = map (vote_key s) [0..<unat (voteCount s)]"

definition add_one :: "fhe \<Rightarrow> euint32 \<Rightarrow> euint32" where
  "add_one F h = fhe_add F h (fhe_asEuint32 F 1)"

text \<open>The keys of the votes that a list of calls submits, and the request identifiers logged.\<close>

fun submitted_keys :: "call list \<Rightarrow> bytes list" where
  "submitted_keys [] = []"
| "submitted_keys (Submit voter enc now # cs) = choiceKey enc # submitted_keys cs"
| "submitted_keys (c # cs) = submitted_keys cs"

fun issued_ids :: "event list \<Rightarrow> uint256 list" where
  "issued_ids [] = []"
| "issued_ids (DecryptionRequested r # es) = r # issued_ids es"
| "issued_ids (e # es) = issued_ids es"

subsection \<open>An instance of the library\<close>

text \<open>
  An instance of the parameter on which the contract can be run: a handle is its plaintext
  under a marker bit, and a proof is a copy of the cleartext it signs.
\<close>

definition demo_asEuint32 :: "uint32 \<Rightarrow> euint32" where
  "demo_asEuint32 v = set_bit 32 (ucast v)"

definition demo_decrypt :: "euint32 \<Rightarrow> uint32" where
  "demo_decrypt h = ucast h"

definition demo_add :: "euint32 \<Rightarrow> euint32 \<Rightarrow> euint32" where
  "demo_add a b = demo_asEuint32 (demo_decrypt a + demo_decrypt b)"

definition demo_verify :: "bytes32 list \<Rightarrow> bytes \<Rightarrow> bytes \<Rightarrow> bool" where
  "demo_verify hs cleartexts prf \<longleftrightarrow>
     prf = cleartexts \<and>
     (case hs of [h] \<Rightarrow> abi_decode_uint32 cleartexts = Some (demo_decrypt h) | _ \<Rightarrow> False)"

definition demoFHE :: fhe where
  "demoFHE = \<lparr> fhe_asEuint32 = demo_asEuint32, fhe_add = demo_add,
     fhe_verifySignatures = demo_verify, fhe_decrypt = demo_decrypt, keccak256 = be_word \<rparr>"

subsection \<open>Invariants of the storage\<close>

text \<open>The registry: no key is listed twice, and every listed key has an initialized tally.\<close>

definition registry_inv :: "storage \<Rightarrow> bool" where
  "registry_inv s \<longleftrightarrow>
     distinct (choiceList s) \<and> (\<forall>k \<in> set (choiceList s). isInitialized (encryptedChoiceCount s k))"

text \<open>Every identifier in the log is below the counter of the library.\<close>

definition ids_below_counter :: "storage \<Rightarrow> bool" where
  "ids_below_counter s \<longleftrightarrow> (\<forall>r \<in> set (issued_ids (events s)). r < counterRequest s)"

text \<open>Identifiers that were not issued yet hold no commitment and no handles.\<close>

definition unissued_empty :: "storage \<Rightarrow> bool" where
  "unissued_empty s \<longleftrightarrow>
     (\<forall>r. counterRequest s \<le> r \<longrightarrow> decryptionRequests s r = 0 \<and> requestedHandles s r = [])"

text \<open>Every key of the ledger is listed, and so is every key with an initialized tally.\<close>

definition registry_closed :: "storage \<Rightarrow> bool" where
  "registry_closed s \<longleftrightarrow>
     set (ledger_keys s) \<subseteq> set (choiceList s) \<and>
     (\<forall>k. isInitialized (encryptedChoiceCount s k) \<longrightarrow> k \<in> set (choiceList s))"

text \<open>Before any aggregation every listed tally is an encryption of 0.\<close>

definition tallies_zero :: "fhe \<Rightarrow> storage \<Rightarrow> bool" where
  "tallies_zero F s \<longleftrightarrow> (\<forall>k \<in> set (choiceList s). fhe_decrypt F (encryptedChoiceCount s k) = 0)"


section \<open>Basic facts\<close>

declare aggregate_loop.simps [simp del]

lemma unat_succ_below: "(i :: uint256) < n \<Longrightarrow> unat (i + 1) = Suc (unat i)"
proof -
  assume "i < n"
  then have "i \<noteq> - 1"
    by (metis word_order.extremum_strict)
  then have "1 + i \<noteq> 0"
    by (metis add_eq_0_iff)
  then show ?thesis
    using unatSuc [of i] by (simp add: add.commute)
qed

lemma voteCount_aggregate_body [simp]: "voteCount (aggregate_body F s i) = voteCount s"
  by (simp add: aggregate_body_def Let_def)

lemma demo_dec_enc: "demo_decrypt (demo_asEuint32 v) = v"
  unfolding demo_decrypt_def demo_asEuint32_def
  by (rule bit_word_eqI) (auto simp: bit_simps)

lemma demo_enc_nz: "demo_asEuint32 v \<noteq> 0"
proof
  assume "demo_asEuint32 v = 0"
  then have "bit (demo_asEuint32 v) 32 = bit (0::256 word) 32"
    by simp
  then show False
    by (simp add: demo_asEuint32_def bit_simps)
qed

lemma demo_handles_initialized: "fhe_handles_initialized demoFHE"
  by (simp add: fhe_handles_initialized_def demoFHE_def isInitialized_def demo_add_def demo_enc_nz)

lemma demo_homomorphic: "fhe_homomorphic demoFHE"
  by (simp add: fhe_homomorphic_def demoFHE_def demo_add_def demo_dec_enc)


lemma submit_effect:
  assumes "submitEncryptedVote F s v enc t = Inr s'"
  shows "voteCount s \<noteq> - 1"
    and "voteCount s' = voteCount s + 1"
    and "encryptedVotes s' = (encryptedVotes s)(voteCount s + 1 :=
           \<lparr> voterId = v, encryptedChoice = enc, timestamp = t \<rparr>)"
    and "encryptedChoiceCount s' =
           (if isInitialized (encryptedChoiceCount s (choiceKey enc)) then encryptedChoiceCount s
            else (encryptedChoiceCount s)(choiceKey enc := fhe_asEuint32 F 0))"
    and "choiceList s' =
           (if isInitialized (encryptedChoiceCount s (choiceKey enc)) then choiceList s
            else choiceList s @ [choiceKey enc])"
    and "decryptionRequests s' = decryptionRequests s"
    and "counterRequest s' = counterRequest s"
    and "requestedHandles s' = requestedHandles s"
    and "events s' = events s @ [VoteSubmitted v t]"
  using assms by (auto simp: submitEncryptedVote_def Let_def split: if_splits)

lemma submit_succeeds:
  "voteCount s \<noteq> - 1 \<Longrightarrow> \<exists>s'. submitEncryptedVote F s v enc t = Inr s'"
  by (simp add: submitEncryptedVote_def Let_def)

lemma submit_overflow:
  "voteCount s = - 1 \<Longrightarrow> submitEncryptedVote F s v enc t = Inl ArithmeticOverflow"
  by (simp add: submitEncryptedVote_def)

lemma aggregate_body_fields [simp]:
  "encryptedVotes (aggregate_body F s i) = encryptedVotes s"
  "choiceList (aggregate_body F s i) = choiceList s"
  "decryptionRequests (aggregate_body F s i) = decryptionRequests s"
  "counterRequest (aggregate_body F s i) = counterRequest s"
  "requestedHandles (aggregate_body F s i) = requestedHandles s"
  "events (aggregate_body F s i) = events s"
  by (simp_all add: aggregate_body_def Let_def)

lemma aggregate_loop_fields [simp]:
  "voteCount (aggregate_loop F s i) = voteCount s"
  "encryptedVotes (aggregate_loop F s i) = encryptedVotes s"
  "choiceList (aggregate_loop F s i) = choiceList s"
  "decryptionRequests (aggregate_loop F s i) = decryptionRequests s"
  "counterRequest (aggregate_loop F s i) = counterRequest s"
  "requestedHandles (aggregate_loop F s i) = requestedHandles s"
  "events (aggregate_loop F s i) = events s"
  by (induction F s i rule: aggregate_loop.induct; subst aggregate_loop.simps; simp)+

text \<open>The tally of a key after the loop: one homomorphic addition per entry of the key.\<close>

lemma aggregate_loop_tally:
  "encryptedChoiceCount (aggregate_loop F s i) k =
     (add_one F ^^
        length (filter (\<lambda>j. vote_key s j = k) [unat i..<unat (voteCount s)]))
       (encryptedChoiceCount s k)"
proof (induction F s i rule: aggregate_loop.induct)
  case (1 F s i)
  show ?case
  proof (cases "i < voteCount s")
    case False
    then have "unat (voteCount s) \<le> unat i"
      by (simp add: word_less_nat_alt)
    with False show ?thesis
      by (subst aggregate_loop.simps) simp
  next
    case True
    let ?b = "aggregate_body F s i"
    have lt: "unat i < unat (voteCount s)"
      using True by (simp add: word_less_nat_alt)
    have suc: "unat (i + 1) = Suc (unat i)"
      using True by (rule unat_succ_below)
    have keys: "vote_key ?b = vote_key s"
      by (simp add: vote_key_def fun_eq_iff)
    have here: "vote_key s (unat i) = choiceKey (encryptedChoice (encryptedVotes s (i + 1)))"
      by (simp add: vote_key_def)
    have split: "[unat i..<unat (voteCount s)] = unat i # [Suc (unat i)..<unat (voteCount s)]"
      using lt by (simp add: upt_conv_Cons)
    have body: "encryptedChoiceCount ?b k =
        (if vote_key s (unat i) = k
         then add_one F (encryptedChoiceCount s k)
         else encryptedChoiceCount s k)"
      by (auto simp: aggregate_body_def Let_def here add_one_def)
    have "encryptedChoiceCount (aggregate_loop F s i) k =
        encryptedChoiceCount (aggregate_loop F ?b (i + 1)) k"
      using True by (subst aggregate_loop.simps) simp
    also have "\<dots> = (add_one F ^^
        length (filter (\<lambda>j. vote_key s j = k) [Suc (unat i)..<unat (voteCount s)]))
       (encryptedChoiceCount ?b k)"
      using "1.IH" [OF True] by (simp add: keys suc)
    finally show ?thesis
      by (simp add: split body funpow_swap1)
  qed
qed


lemma decrypt_add_one_funpow:
  "fhe_homomorphic F \<Longrightarrow> fhe_decrypt F ((add_one F ^^ n) h) = fhe_decrypt F h + of_nat n"
  by (induction n) (simp_all add: fhe_homomorphic_def add_one_def)

lemma initialized_add_one_funpow:
  "fhe_handles_initialized F \<Longrightarrow> isInitialized h \<Longrightarrow> isInitialized ((add_one F ^^ n) h)"
proof (cases n)
  case 0
  assume "isInitialized h"
  with 0 show ?thesis by simp
next
  case (Suc m)
  assume "fhe_handles_initialized F"
  then have "isInitialized (fhe_add F ((add_one F ^^ m) h) (fhe_asEuint32 F 1))"
    unfolding fhe_handles_initialized_def by blast
  with Suc show ?thesis by (simp add: add_one_def)
qed

lemma count_ledger_keys:
  "length (filter (\<lambda>j. vote_key s j = k) [0..<unat (voteCount s)]) = count_list (ledger_keys s) k"
proof -
  have "length (filter (\<lambda>j. f j = k) xs) = count_list (map f xs) k" for f :: "nat \<Rightarrow> bytes" and xs
    by (induction xs) simp_all
  then show ?thesis
    by (simp add: ledger_keys_def)
qed

lemma aggregate_tally:
  "encryptedChoiceCount (aggregate_loop F s 0) k =
     (add_one F ^^ count_list (ledger_keys s) k) (encryptedChoiceCount s k)"
  using aggregate_loop_tally [of F s 0 k] by (simp add: count_ledger_keys)

lemma transact_Aggregate: "transact F s Aggregate = aggregate_loop F s 0"
  by (simp add: transact_def aggregateVotes_def)

lemma ledger_keys_aggregate [simp]: "ledger_keys (aggregate_loop F s i) = ledger_keys s"
  by (simp add: ledger_keys_def vote_key_def fun_eq_iff)

lemma aggregate_decrypt:
  "fhe_homomorphic F \<Longrightarrow>
   fhe_decrypt F (encryptedChoiceCount (aggregate_loop F s 0) k) =
     fhe_decrypt F (encryptedChoiceCount s k) + of_nat (count_list (ledger_keys s) k)"
  by (simp add: aggregate_tally decrypt_add_one_funpow)

lemma request_not_found:
  "\<not> isInitialized (encryptedChoiceCount s choice) \<Longrightarrow>
   requestChoiceDecryption F s choice = Inl ChoiceNotFound"
  by (simp add: requestChoiceDecryption_def Let_def)

lemma request_overflow:
  "isInitialized (encryptedChoiceCount s choice) \<Longrightarrow> counterRequest s = - 1 \<Longrightarrow>
   requestChoiceDecryption F s choice = Inl ArithmeticOverflow"
  by (simp add: requestChoiceDecryption_def Let_def FHE_requestDecryption_def)

lemma request_effect:
  assumes "requestChoiceDecryption F s choice = Inr s'"
  shows "isInitialized (encryptedChoiceCount s choice)"
    and "counterRequest s \<noteq> - 1"
    and "voteCount s' = voteCount s"
    and "encryptedVotes s' = encryptedVotes s"
    and "encryptedChoiceCount s' = encryptedChoiceCount s"
    and "choiceList s' = choiceList s"
    and "decryptionRequests s' =
           (decryptionRequests s)(counterRequest s := keccak256 F choice)"
    and "counterRequest s' = counterRequest s + 1"
    and "requestedHandles s' =
           (requestedHandles s)(counterRequest s := [encryptedChoiceCount s choice])"
    and "events s' = events s @ [DecryptionRequested (counterRequest s)]"
  using assms
  by (auto simp: requestChoiceDecryption_def Let_def FHE_requestDecryption_def
      bytes32ToUint_def toBytes32_def split: if_splits)

lemma request_succeeds:
  "isInitialized (encryptedChoiceCount s choice) \<Longrightarrow> counterRequest s \<noteq> - 1 \<Longrightarrow>
   \<exists>s'. requestChoiceDecryption F s choice = Inr s'"
  by (simp add: requestChoiceDecryption_def Let_def FHE_requestDecryption_def)

lemma callback_effect:
  assumes "decryptChoiceCount F s r ct pf = Inr s'"
  shows "\<exists>c n. getChoiceFromHash F s (decryptionRequests s r) = Inr c
            \<and> FHE_checkSignatures F s r ct pf \<and> abi_decode_uint32 ct = Some n
            \<and> s' = s\<lparr> events := events s @ [VoteCountDecrypted c n] \<rparr>"
  using assms
  by (auto simp: decryptChoiceCount_def Let_def split: sum.splits if_splits option.splits)

lemma callback_succeeds:
  "getChoiceFromHash F s (decryptionRequests s r) = Inr c \<Longrightarrow>
   FHE_checkSignatures F s r ct pf \<Longrightarrow> abi_decode_uint32 ct = Some n \<Longrightarrow>
   decryptChoiceCount F s r ct pf = Inr (s\<lparr> events := events s @ [VoteCountDecrypted c n] \<rparr>)"
  by (simp add: decryptChoiceCount_def Let_def)

lemma callback_invalid:
  "\<not> FHE_checkSignatures F s r ct pf \<Longrightarrow>
   decryptChoiceCount F s r ct pf =
     (case getChoiceFromHash F s (decryptionRequests s r) of
        Inl e \<Rightarrow> Inl e | Inr c \<Rightarrow> Inl InvalidSignatures)"
  by (simp add: decryptChoiceCount_def Let_def split: sum.splits)

lemma transact_Inl: "exec F s c = Inl e \<Longrightarrow> transact F s c = s"
  by (simp add: transact_def)

lemma transact_Inr: "exec F s c = Inr s' \<Longrightarrow> transact F s c = s'"
  by (simp add: transact_def)

lemma run_append: "run F s (cs @ cs') = run F (run F s cs) cs'"
  by (induction cs arbitrary: s) simp_all

lemma run_snoc: "run F s (cs @ [c]) = transact F (run F s cs) c"
  by (simp add: run_append)

text \<open>An invariant of the steps holds along every run.\<close>

lemma run_invariant:
  assumes "P s" and "\<And>s c. P s \<Longrightarrow> P (transact F s c)"
  shows "P (run F s cs)"
  using assms(1) by (induction cs arbitrary: s) (simp_all add: assms(2))

lemma issued_ids_append: "issued_ids (es @ es') = issued_ids es @ issued_ids es'"
  by (induction es rule: issued_ids.induct) simp_all

lemma unat_succ: "(c :: uint256) \<noteq> - 1 \<Longrightarrow> unat (c + 1) = Suc (unat c)"
proof -
  assume "c \<noteq> - 1"
  then have "1 + c \<noteq> 0"
    by (metis add_eq_0_iff)
  then show ?thesis
    using unatSuc [of c] by (simp add: add.commute)
qed

lemma word_less_succ: "(c :: uint256) \<noteq> - 1 \<Longrightarrow> r \<le> c \<Longrightarrow> r < c + 1"
  by (simp add: word_less_nat_alt word_le_nat_alt unat_succ)

lemma ledger_keys_submit:
  assumes "submitEncryptedVote F s v enc t = Inr s'"
  shows "ledger_keys s' = ledger_keys s @ [choiceKey enc]"
proof -
  note e = submit_effect [OF assms]
  let ?n = "unat (voteCount s)"
  have n: "unat (voteCount s') = Suc ?n"
    using e(1,2) by (simp add: unat_succ)
  have old: "vote_key s' j = vote_key s j" if "j < ?n" for j
  proof -
    have "unat (of_nat j :: uint256) = j"
      using that by (intro le_unat_uoi [of j "voteCount s"]) simp
    with that have "(of_nat j :: uint256) \<noteq> voteCount s"
      by auto
    then show ?thesis
      by (simp add: vote_key_def e(3))
  qed
  have new: "vote_key s' ?n = choiceKey enc"
    by (simp add: vote_key_def e(3))
  have "map (vote_key s') [0..<?n] = map (vote_key s) [0..<?n]"
    by (rule map_cong) (simp_all add: old)
  then show ?thesis
    by (simp add: ledger_keys_def n new)
qed

lemma ledger_keys_events [simp]: "ledger_keys (s\<lparr> events := es \<rparr>) = ledger_keys s"
  by (simp add: ledger_keys_def vote_key_def fun_eq_iff)

lemma ledger_keys_request:
  "requestChoiceDecryption F s choice = Inr s' \<Longrightarrow> ledger_keys s' = ledger_keys s"
  by (simp add: ledger_keys_def vote_key_def fun_eq_iff request_effect)

subsection \<open>Invariants of a transaction\<close>

lemma registry_inv_step:
  assumes F: "fhe_handles_initialized F" and inv: "registry_inv s"
  shows "registry_inv (transact F s c)"
proof (cases "exec F s c")
  case (Inl e)
  then show ?thesis using inv by (simp add: transact_Inl)
next
  case (Inr s')
  then have t: "transact F s c = s'" by (rule transact_Inr)
  show ?thesis
  proof (cases c)
    case (Submit v enc now)
    with Inr have "submitEncryptedVote F s v enc now = Inr s'" by simp
    note e = submit_effect [OF this]
    have z: "isInitialized (fhe_asEuint32 F 0)"
      using F by (simp add: fhe_handles_initialized_def)
    show ?thesis
      using inv z unfolding t registry_inv_def e(4,5) by auto
  next
    case Aggregate
    with Inr have s': "s' = aggregate_loop F s 0" by (simp add: aggregateVotes_def)
    show ?thesis
      using inv F unfolding t s' registry_inv_def
      by (simp add: aggregate_tally initialized_add_one_funpow)
  next
    case (Request choice)
    with Inr have "requestChoiceDecryption F s choice = Inr s'" by simp
    note e = request_effect [OF this]
    show ?thesis
      using inv unfolding t registry_inv_def e(5,6) by simp
  next
    case (Callback r ct pf)
    with Inr have "decryptChoiceCount F s r ct pf = Inr s'" by simp
    from callback_effect [OF this] show ?thesis
      using inv unfolding t registry_inv_def by auto
  qed
qed

lemma registry_closed_step:
  assumes F: "fhe_handles_initialized F" and inv: "registry_closed s"
  shows "registry_closed (transact F s c)"
proof (cases "exec F s c")
  case (Inl e)
  then show ?thesis using inv by (simp add: transact_Inl)
next
  case (Inr s')
  then have t: "transact F s c = s'" by (rule transact_Inr)
  show ?thesis
  proof (cases c)
    case (Submit v enc now)
    with Inr have sub: "submitEncryptedVote F s v enc now = Inr s'" by simp
    note e = submit_effect [OF sub]
    show ?thesis
      using inv unfolding t registry_closed_def e(4,5) ledger_keys_submit [OF sub]
      by (auto split: if_splits)
  next
    case Aggregate
    with Inr have s': "s' = aggregate_loop F s 0" by (simp add: aggregateVotes_def)
    have "k \<in> set (choiceList s)"
      if "isInitialized (encryptedChoiceCount (aggregate_loop F s 0) k)" for k
    proof (cases "count_list (ledger_keys s) k = 0")
      case True
      with that inv show ?thesis
        by (simp add: aggregate_tally registry_closed_def)
    next
      case False
      then have "k \<in> set (ledger_keys s)"
        by (simp add: count_list_0_iff)
      with inv show ?thesis
        by (auto simp: registry_closed_def)
    qed
    with inv show ?thesis
      unfolding t s' registry_closed_def by simp
  next
    case (Request choice)
    with Inr have req: "requestChoiceDecryption F s choice = Inr s'" by simp
    note e = request_effect [OF req]
    show ?thesis
      using inv unfolding t registry_closed_def e(5,6) ledger_keys_request [OF req] by simp
  next
    case (Callback r ct pf)
    with Inr have "decryptChoiceCount F s r ct pf = Inr s'" by simp
    from callback_effect [OF this] show ?thesis
      using inv unfolding t registry_closed_def by auto
  qed
qed

lemma ids_below_counter_step:
  assumes inv: "ids_below_counter s"
  shows "ids_below_counter (transact F s c)"
proof (cases "exec F s c")
  case (Inl e)
  then show ?thesis using inv by (simp add: transact_Inl)
next
  case (Inr s')
  then have t: "transact F s c = s'" by (rule transact_Inr)
  show ?thesis
  proof (cases c)
    case (Submit v enc now)
    with Inr have sub: "submitEncryptedVote F s v enc now = Inr s'" by simp
    note e = submit_effect [OF sub]
    show ?thesis
      using inv unfolding t ids_below_counter_def e(7,9) by (simp add: issued_ids_append)
  next
    case Aggregate
    with Inr have s': "s' = aggregate_loop F s 0" by (simp add: aggregateVotes_def)
    show ?thesis
      using inv unfolding t s' ids_below_counter_def by simp
  next
    case (Request choice)
    with Inr have req: "requestChoiceDecryption F s choice = Inr s'" by simp
    note e = request_effect [OF req]
    show ?thesis
      using inv e(2) unfolding t ids_below_counter_def e(8,10)
      by (auto simp: issued_ids_append word_less_succ)
  next
    case (Callback r ct pf)
    with Inr have "decryptChoiceCount F s r ct pf = Inr s'" by simp
    from callback_effect [OF this] show ?thesis
      using inv unfolding t ids_below_counter_def by (auto simp: issued_ids_append)
  qed
qed

lemma unissued_empty_step:
  assumes inv: "unissued_empty s"
  shows "unissued_empty (transact F s c)"
proof (cases "exec F s c")
  case (Inl e)
  then show ?thesis using inv by (simp add: transact_Inl)
next
  case (Inr s')
  then have t: "transact F s c = s'" by (rule transact_Inr)
  show ?thesis
  proof (cases c)
    case (Submit v enc now)
    with Inr have sub: "submitEncryptedVote F s v enc now = Inr s'" by simp
    note e = submit_effect [OF sub]
    show ?thesis
      using inv unfolding t unissued_empty_def e(6,7,8) by simp
  next
    case Aggregate
    with Inr have s': "s' = aggregate_loop F s 0" by (simp add: aggregateVotes_def)
    show ?thesis
      using inv unfolding t s' unissued_empty_def by simp
  next
    case (Request choice)
    with Inr have req: "requestChoiceDecryption F s choice = Inr s'" by simp
    note e = request_effect [OF req]
    have "counterRequest s < counterRequest s + 1"
      using e(2) by (simp add: word_less_succ)
    then have "counterRequest s \<le> r \<and> r \<noteq> counterRequest s" if "counterRequest s + 1 \<le> r" for r
      using that by auto
    then show ?thesis
      using inv unfolding t unissued_empty_def e(7,8,9) by simp
  next
    case (Callback r ct pf)
    with Inr have "decryptChoiceCount F s r ct pf = Inr s'" by simp
    from callback_effect [OF this] show ?thesis
      using inv unfolding t unissued_empty_def by auto
  qed
qed

lemma deployed_invariants:
  "registry_inv deployed" "registry_closed deployed" "ids_below_counter deployed"
  "unissued_empty deployed"
  by (simp_all add: registry_inv_def registry_closed_def ids_below_counter_def unissued_empty_def
      deployed_def ledger_keys_def isInitialized_def)

lemma run_registry_inv: "fhe_handles_initialized F \<Longrightarrow> registry_inv (run F deployed cs)"
  by (rule run_invariant) (simp_all add: deployed_invariants registry_inv_step)

lemma run_registry_closed: "fhe_handles_initialized F \<Longrightarrow> registry_closed (run F deployed cs)"
  by (rule run_invariant) (simp_all add: deployed_invariants registry_closed_step)

lemma run_ids_below_counter: "ids_below_counter (run F deployed cs)"
  by (rule run_invariant) (simp_all add: deployed_invariants ids_below_counter_step)

lemma run_unissued_empty: "unissued_empty (run F deployed cs)"
  by (rule run_invariant) (simp_all add: deployed_invariants unissued_empty_step)

lemma choiceList_step:
  "prefix (choiceList s) (choiceList (transact F s c))"
proof (cases "exec F s c")
  case (Inl e)
  then show ?thesis by (simp add: transact_Inl)
next
  case (Inr s')
  then have t: "transact F s c = s'" by (rule transact_Inr)
  show ?thesis
  proof (cases c)
    case (Submit v enc now)
    with Inr have sub: "submitEncryptedVote F s v enc now = Inr s'" by simp
    show ?thesis
      unfolding t submit_effect(5) [OF sub] by simp
  next
    case Aggregate
    with Inr have s': "s' = aggregate_loop F s 0" by (simp add: aggregateVotes_def)
    show ?thesis
      unfolding t s' by simp
  next
    case (Request choice)
    with Inr have req: "requestChoiceDecryption F s choice = Inr s'" by simp
    show ?thesis
      unfolding t request_effect(6) [OF req] by simp
  next
    case (Callback r ct pf)
    with Inr have "decryptChoiceCount F s r ct pf = Inr s'" by simp
    from callback_effect [OF this] show ?thesis
      unfolding t by auto
  qed
qed

text \<open>A key that a transaction adds to the list had no tally, and gets the encrypted zero.\<close>

lemma new_key_step:
  assumes "k \<in> set (choiceList (transact F s c))" and "k \<notin> set (choiceList s)"
  shows "\<not> isInitialized (encryptedChoiceCount s k) \<and>
         encryptedChoiceCount (transact F s c) k = fhe_asEuint32 F 0 \<and>
         choiceList (transact F s c) = choiceList s @ [k] \<and>
         (\<exists>voter enc now. c = Submit voter enc now \<and> k = choiceKey enc)"
proof (cases "exec F s c")
  case (Inl e)
  then show ?thesis using assms by (simp add: transact_Inl)
next
  case (Inr s')
  then have t: "transact F s c = s'" by (rule transact_Inr)
  show ?thesis
  proof (cases c)
    case (Submit v enc now)
    with Inr have sub: "submitEncryptedVote F s v enc now = Inr s'" by simp
    note e = submit_effect [OF sub]
    show ?thesis
      using assms Submit unfolding t e(4,5) by (auto split: if_splits)
  next
    case Aggregate
    with Inr have s': "s' = aggregate_loop F s 0" by (simp add: aggregateVotes_def)
    show ?thesis
      using assms unfolding t s' by simp
  next
    case (Request choice)
    with Inr have req: "requestChoiceDecryption F s choice = Inr s'" by simp
    show ?thesis
      using assms unfolding t request_effect(6) [OF req] by simp
  next
    case (Callback r ct pf)
    with Inr have "decryptChoiceCount F s r ct pf = Inr s'" by simp
    from callback_effect [OF this] show ?thesis
      using assms unfolding t by auto
  qed
qed







lemma tallies_zero_step:
  assumes F: "fhe_homomorphic F" and inv: "tallies_zero F s" and c: "c \<noteq> Aggregate"
  shows "tallies_zero F (transact F s c)"
proof (cases "exec F s c")
  case (Inl e)
  then show ?thesis using inv by (simp add: transact_Inl)
next
  case (Inr s')
  then have t: "transact F s c = s'" by (rule transact_Inr)
  show ?thesis
  proof (cases c)
    case (Submit v enc now)
    with Inr have sub: "submitEncryptedVote F s v enc now = Inr s'" by simp
    note e = submit_effect [OF sub]
    have z: "fhe_decrypt F (fhe_asEuint32 F 0) = 0"
      using F by (simp add: fhe_homomorphic_def)
    show ?thesis
      using inv z unfolding t tallies_zero_def e(4,5) by auto
  next
    case Aggregate
    with c show ?thesis by simp
  next
    case (Request choice)
    with Inr have req: "requestChoiceDecryption F s choice = Inr s'" by simp
    note e = request_effect [OF req]
    show ?thesis
      using inv unfolding t tallies_zero_def e(5,6) by simp
  next
    case (Callback r ct pf)
    with Inr have "decryptChoiceCount F s r ct pf = Inr s'" by simp
    from callback_effect [OF this] show ?thesis
      using inv unfolding t tallies_zero_def by auto
  qed
qed

lemma run_tallies_zero:
  "fhe_homomorphic F \<Longrightarrow> tallies_zero F s \<Longrightarrow> Aggregate \<notin> set cs \<Longrightarrow>
   tallies_zero F (run F s cs)"
  by (induction cs arbitrary: s) (auto simp: tallies_zero_step)

lemma ledger_unchanged_step:
  assumes "\<forall>voter enc now. c \<noteq> Submit voter enc now"
  shows "ledger_keys (transact F s c) = ledger_keys s \<and> voteCount (transact F s c) = voteCount s"
proof (cases "exec F s c")
  case (Inl e)
  then show ?thesis by (simp add: transact_Inl)
next
  case (Inr s')
  then have t: "transact F s c = s'" by (rule transact_Inr)
  show ?thesis
  proof (cases c)
    case (Submit v enc now)
    with assms show ?thesis by simp
  next
    case Aggregate
    with Inr have s': "s' = aggregate_loop F s 0" by (simp add: aggregateVotes_def)
    show ?thesis
      unfolding t s' by simp
  next
    case (Request choice)
    with Inr have req: "requestChoiceDecryption F s choice = Inr s'" by simp
    show ?thesis
      unfolding t by (simp add: ledger_keys_request [OF req] request_effect(3) [OF req])
  next
    case (Callback r ct pf)
    with Inr have "decryptChoiceCount F s r ct pf = Inr s'" by simp
    from callback_effect [OF this] show ?thesis
      unfolding t by auto
  qed
qed

lemma unat_max_word256: "unat (- 1 :: uint256) = 2 ^ 256 - 1"
  by (simp add: unsigned_minus_1_eq_mask mask_eq_exp_minus_1)

lemma run_ledger_keys:
  "unat (voteCount s) + length (submitted_keys cs) < 2 ^ 256 \<Longrightarrow>
   ledger_keys (run F s cs) = ledger_keys s @ submitted_keys cs
   \<and> unat (voteCount (run F s cs)) = unat (voteCount s) + length (submitted_keys cs)"
proof (induction cs arbitrary: s)
  case Nil
  show ?case by simp
next
  case (Cons c cs)
  show ?case
  proof (cases c)
    case (Submit v enc now)
    have ok: "voteCount s \<noteq> - 1"
    proof
      assume "voteCount s = - 1"
      then have "unat (voteCount s) = 2 ^ 256 - 1"
        by (simp add: unat_max_word256)
      with Cons.prems Submit show False
        by simp
    qed
    then obtain s' where sub: "submitEncryptedVote F s v enc now = Inr s'"
      using submit_succeeds by blast
    then have t: "transact F s (Submit v enc now) = s'"
      by (simp add: transact_def)
    have n: "unat (voteCount s') = Suc (unat (voteCount s))"
      using submit_effect(2) [OF sub] ok by (simp add: unat_succ)
    have "unat (voteCount s') + length (submitted_keys cs) < 2 ^ 256"
      using Cons.prems Submit n by simp
    from Cons.IH [OF this] show ?thesis
      by (simp add: t n Submit ledger_keys_submit [OF sub])
  next
    case Aggregate
    then have "\<forall>voter enc now. c \<noteq> Submit voter enc now" by simp
    from ledger_unchanged_step [OF this, of F s] Cons.IH [of "transact F s c"] Cons.prems Aggregate
    show ?thesis by simp
  next
    case (Request choice)
    then have "\<forall>voter enc now. c \<noteq> Submit voter enc now" by simp
    from ledger_unchanged_step [OF this, of F s] Cons.IH [of "transact F s c"] Cons.prems Request
    show ?thesis by simp
  next
    case (Callback r ct pf)
    then have "\<forall>voter enc now. c \<noteq> Submit voter enc now" by simp
    from ledger_unchanged_step [OF this, of F s] Cons.IH [of "transact F s c"] Cons.prems Callback
    show ?thesis by simp
  qed
qed

lemma sum_list_indicator:
  "distinct ks \<Longrightarrow> sum_list (map (\<lambda>k. if x = k then 1 else 0) ks) = (if x \<in> set ks then 1 else (0::nat))"
  by (induction ks) auto

lemma sum_list_count_list:
  "distinct ks \<Longrightarrow> set xs \<subseteq> set ks \<Longrightarrow>
   sum_list (map (count_list xs) ks) = length xs"
proof (induction xs)
  case Nil
  show ?case by simp
next
  case (Cons x xs)
  have "sum_list (map (count_list (x # xs)) ks) =
      sum_list (map (\<lambda>k. (if x = k then 1 else 0) + count_list xs k) ks)"
    by (rule arg_cong [where f = sum_list]) (rule map_cong, simp_all)
  also have "\<dots> = sum_list (map (\<lambda>k. if x = k then 1 else 0) ks) + sum_list (map (count_list xs) ks)"
    by (simp add: sum_list_addf)
  also have "\<dots> = 1 + length xs"
    using Cons by (simp add: sum_list_indicator)
  finally have fin: "sum_list (map (count_list (x # xs)) ks) = 1 + length xs" .
  have len: "length (x # xs) = 1 + length xs"
    by simp
  show ?case
    by (simp only: fin len)
qed

lemma count_list_le_length: "count_list xs k \<le> length xs"
  by (induction xs) auto



lemma deployed_ledger: "voteCount deployed = 0" "ledger_keys deployed = []"
  by (simp_all add: ledger_keys_def deployed_def)

lemma deployed_tallies_zero: "tallies_zero F deployed"
  by (simp add: tallies_zero_def deployed_def)




text \<open>The tally of a listed key is changed by aggregation only, never set anew.\<close>

lemma listed_tally_step:
  assumes inv: "registry_inv s" and k: "k \<in> set (choiceList s)"
  shows "encryptedChoiceCount (transact F s c) k =
           (if c = Aggregate
            then (add_one F ^^ count_list (ledger_keys s) k) (encryptedChoiceCount s k)
            else encryptedChoiceCount s k)"
proof (cases "exec F s c")
  case (Inl e)
  then have "c \<noteq> Aggregate"
    by (auto simp: aggregateVotes_def)
  with Inl show ?thesis by (simp add: transact_Inl)
next
  case (Inr s')
  then have t: "transact F s c = s'" by (rule transact_Inr)
  have init: "isInitialized (encryptedChoiceCount s k)"
    using inv k by (simp add: registry_inv_def)
  show ?thesis
  proof (cases c)
    case (Submit v enc now)
    with Inr have sub: "submitEncryptedVote F s v enc now = Inr s'" by simp
    note e = submit_effect [OF sub]
    show ?thesis
      using init Submit unfolding t e(4) by auto
  next
    case Aggregate
    with Inr have s': "s' = aggregate_loop F s 0" by (simp add: aggregateVotes_def)
    show ?thesis
      unfolding t s' using Aggregate by (simp add: aggregate_tally)
  next
    case (Request choice)
    with Inr have req: "requestChoiceDecryption F s choice = Inr s'" by simp
    show ?thesis
      using Request unfolding t request_effect(5) [OF req] by simp
  next
    case (Callback r ct pf)
    with Inr have "decryptChoiceCount F s r ct pf = Inr s'" by simp
    from callback_effect [OF this] show ?thesis
      using Callback unfolding t by auto
  qed
qed

section \<open>The claims\<close>

text \<open>
  C1 (counterexample). The claim says that a second \<open>aggregateVotes\<close> with no vote in between
  folds nothing. The contract keeps no cursor: the loop runs over the whole ledger at every
  call. On a ledger of one vote the tally of its key decrypts to 1 after one call and to 2
  after two.
\<close>

theorem aggregate_twice_counterexample:
  "fhe_decrypt demoFHE (encryptedChoiceCount
      (transact demoFHE (run demoFHE deployed [Submit 7 5 100]) Aggregate) (choiceKey 5)) = 1
   \<and> fhe_decrypt demoFHE (encryptedChoiceCount
      (transact demoFHE (transact demoFHE (run demoFHE deployed [Submit 7 5 100]) Aggregate) Aggregate)
      (choiceKey 5)) = 2"
  by code_simp

text \<open>
  C1 (as amended). Every call of \<open>aggregateVotes\<close> adds to the plaintext of the tally of
  each key the number of entries of the whole ledger that carry this key (modulo \<open>2 ^ 32\<close>),
  whether or not an earlier call has counted them; two calls in a row add it twice. The
  second call leaves the plaintext of the tally of a key as the first call left it exactly
  when the number of ledger entries with this key is a multiple of \<open>2 ^ 32\<close>.
\<close>

theorem aggregate_rescans_ledger:
  assumes "fhe_homomorphic F"
  shows "fhe_decrypt F (encryptedChoiceCount (transact F s Aggregate) k) =
           fhe_decrypt F (encryptedChoiceCount s k) + of_nat (count_list (ledger_keys s) k)
       \<and> fhe_decrypt F (encryptedChoiceCount (transact F (transact F s Aggregate) Aggregate) k) =
           fhe_decrypt F (encryptedChoiceCount s k) + 2 * of_nat (count_list (ledger_keys s) k)
       \<and> (fhe_decrypt F (encryptedChoiceCount (transact F (transact F s Aggregate) Aggregate) k) =
            fhe_decrypt F (encryptedChoiceCount (transact F s Aggregate) k)
          \<longleftrightarrow> 2 ^ 32 dvd count_list (ledger_keys s) k)"
proof -
  let ?n = "count_list (ledger_keys s) k"
  have once: "fhe_decrypt F (encryptedChoiceCount (transact F s Aggregate) k) =
      fhe_decrypt F (encryptedChoiceCount s k) + of_nat ?n"
    using assms by (simp add: transact_Aggregate aggregate_decrypt)
  have twice: "fhe_decrypt F (encryptedChoiceCount (transact F (transact F s Aggregate) Aggregate) k) =
      fhe_decrypt F (encryptedChoiceCount s k) + 2 * of_nat ?n"
    using assms by (simp add: transact_Aggregate aggregate_decrypt)
  have "(of_nat ?n = (0 :: uint32)) \<longleftrightarrow> 2 ^ 32 dvd ?n"
    by (auto simp: of_nat_0 dvd_def mult.commute)
  then have "(fhe_decrypt F (encryptedChoiceCount (transact F (transact F s Aggregate) Aggregate) k) =
      fhe_decrypt F (encryptedChoiceCount (transact F s Aggregate) k)) \<longleftrightarrow> 2 ^ 32 dvd ?n"
    unfolding once twice by simp
  with once twice show ?thesis
    by blast
qed

theorem aggregate_rescans_ledger_witness:
  "fhe_homomorphic demoFHE
   \<and> fhe_decrypt demoFHE (encryptedChoiceCount
        (transact demoFHE (run demoFHE deployed [Submit 7 5 100]) Aggregate) (choiceKey 5)) =
       fhe_decrypt demoFHE (encryptedChoiceCount (run demoFHE deployed [Submit 7 5 100]) (choiceKey 5))
         + of_nat (count_list (ledger_keys (run demoFHE deployed [Submit 7 5 100])) (choiceKey 5))
   \<and> count_list (ledger_keys (run demoFHE deployed [Submit 7 5 100])) (choiceKey 5) = 1
   \<and> fhe_decrypt demoFHE (encryptedChoiceCount
        (transact demoFHE (transact demoFHE (run demoFHE deployed [Submit 7 5 100]) Aggregate)
           Aggregate) (choiceKey 5)) \<noteq>
       fhe_decrypt demoFHE (encryptedChoiceCount
        (transact demoFHE (run demoFHE deployed [Submit 7 5 100]) Aggregate) (choiceKey 5))"
proof -
  have n: "count_list (ledger_keys (run demoFHE deployed [Submit 7 5 100])) (choiceKey 5) = 1"
    by code_simp
  have d: "\<not> (2::nat) ^ 32 dvd 1"
    by simp
  show ?thesis
    using aggregate_rescans_ledger [OF demo_homomorphic, of "run demoFHE deployed [Submit 7 5 100]" "choiceKey 5"]
      demo_homomorphic d unfolding n by simp
qed




text \<open>
  C3 (counterexample). The claim says that after \<open>k\<close> votes for an option and an aggregation
  its tally decrypts to \<open>k\<close>. With an aggregation after each of two votes for the same key,
  the second aggregation counts the first vote again: two votes were submitted and the tally
  decrypts to 3.
\<close>

theorem conservation_counterexample:
  "submitted_keys [Submit 7 5 100, Aggregate, Submit 8 5 101, Aggregate] = [choiceKey 5, choiceKey 5]
   \<and> voteCount (run demoFHE deployed [Submit 7 5 100, Aggregate, Submit 8 5 101, Aggregate]) = 2
   \<and> choiceList (run demoFHE deployed [Submit 7 5 100, Aggregate, Submit 8 5 101, Aggregate])
        = [choiceKey 5]
   \<and> unat (fhe_decrypt demoFHE (encryptedChoiceCount
        (run demoFHE deployed [Submit 7 5 100, Aggregate, Submit 8 5 101, Aggregate])
        (choiceKey 5))) = 3"
  by code_simp

text \<open>
  C3 (as amended). When \<open>aggregateVotes\<close> runs once, after all the calls since deployment
  (none of them an aggregation, fewer than \<open>2 ^ 32\<close> votes among them), the tally of every
  listed key decrypts to the number of votes submitted with this key, the decrypted tallies
  of the listed keys add up to the number of votes submitted, which is \<open>voteCount\<close>, and
  the key of every vote is listed.
\<close>

theorem conservation_single_aggregate:
  assumes "fhe_handles_initialized F" and "fhe_homomorphic F"
    and "Aggregate \<notin> set cs" and "length (submitted_keys cs) < 2 ^ 32"
  shows "(\<forall>X \<in> set (choiceList (run F deployed (cs @ [Aggregate]))).
            unat (fhe_decrypt F (encryptedChoiceCount (run F deployed (cs @ [Aggregate])) X))
              = count_list (submitted_keys cs) X)
       \<and> sum_list (map (\<lambda>k. unat (fhe_decrypt F
              (encryptedChoiceCount (run F deployed (cs @ [Aggregate])) k)))
            (choiceList (run F deployed (cs @ [Aggregate])))) = length (submitted_keys cs)
       \<and> unat (voteCount (run F deployed (cs @ [Aggregate]))) = length (submitted_keys cs)
       \<and> set (submitted_keys cs) \<subseteq> set (choiceList (run F deployed (cs @ [Aggregate])))"
proof -
  let ?s = "run F deployed cs"
  let ?s' = "run F deployed (cs @ [Aggregate])"
  let ?xs = "submitted_keys cs"
  have s': "?s' = aggregate_loop F ?s 0"
    by (simp add: run_snoc transact_Aggregate)
  have "unat (voteCount deployed) + length ?xs < 2 ^ 256"
  proof -
    have "(2::nat) ^ 32 \<le> 2 ^ 256"
      by (rule power_increasing) simp_all
    with assms(4) show ?thesis
      by (simp add: deployed_ledger)
  qed
  from run_ledger_keys [OF this, of F]
  have keys: "ledger_keys ?s = ?xs" and n: "unat (voteCount ?s) = length ?xs"
    by (simp_all add: deployed_ledger)
  have zero: "tallies_zero F ?s"
    using assms(2,3) by (intro run_tallies_zero) (simp_all add: deployed_tallies_zero)
  have closed: "set ?xs \<subseteq> set (choiceList ?s)"
    using run_registry_closed [OF assms(1), of cs] by (simp add: registry_closed_def keys)
  have dist: "distinct (choiceList ?s)"
    using run_registry_inv [OF assms(1), of cs] by (simp add: registry_inv_def)
  have each: "unat (fhe_decrypt F (encryptedChoiceCount ?s' X)) = count_list ?xs X"
    if X: "X \<in> set (choiceList ?s)" for X
  proof -
    have "fhe_decrypt F (encryptedChoiceCount ?s' X) = of_nat (count_list ?xs X)"
      using zero X by (simp add: s' aggregate_decrypt [OF assms(2)] keys tallies_zero_def)
    moreover have "count_list ?xs X < 2 ^ 32"
      using count_list_le_length [of ?xs X] assms(4) by simp
    ultimately show ?thesis
      by (simp add: unat_of_nat)
  qed
  have meq: "map (\<lambda>k. unat (fhe_decrypt F (encryptedChoiceCount ?s' k))) (choiceList ?s)
      = map (count_list ?xs) (choiceList ?s)"
    by (rule map_cong) (simp_all add: each)
  have total: "sum_list (map (\<lambda>k. unat (fhe_decrypt F (encryptedChoiceCount ?s' k)))
      (choiceList ?s)) = length ?xs"
    by (simp only: meq sum_list_count_list [OF dist closed])
  have list: "choiceList ?s' = choiceList ?s" and vc: "voteCount ?s' = voteCount ?s"
    by (simp_all add: s')
  show ?thesis
    unfolding list vc using each total n closed by blast
qed

theorem conservation_single_aggregate_witness:
  "fhe_handles_initialized demoFHE \<and> fhe_homomorphic demoFHE
   \<and> Aggregate \<notin> set [Submit 7 5 100, Submit 8 6 101, Submit 9 5 102]
   \<and> length (submitted_keys [Submit 7 5 100, Submit 8 6 101, Submit 9 5 102]) < 2 ^ 32
   \<and> choiceKey 5 \<in> set (choiceList
        (run demoFHE deployed ([Submit 7 5 100, Submit 8 6 101, Submit 9 5 102] @ [Aggregate])))
   \<and> count_list (submitted_keys [Submit 7 5 100, Submit 8 6 101, Submit 9 5 102]) (choiceKey 5) = 2
   \<and> unat (fhe_decrypt demoFHE (encryptedChoiceCount
        (run demoFHE deployed ([Submit 7 5 100, Submit 8 6 101, Submit 9 5 102] @ [Aggregate]))
        (choiceKey 5))) = 2
   \<and> sum_list (map (\<lambda>k. unat (fhe_decrypt demoFHE (encryptedChoiceCount
        (run demoFHE deployed ([Submit 7 5 100, Submit 8 6 101, Submit 9 5 102] @ [Aggregate])) k)))
        (choiceList
          (run demoFHE deployed ([Submit 7 5 100, Submit 8 6 101, Submit 9 5 102] @ [Aggregate]))))
      = 3"
proof -
  let ?cs = "[Submit 7 5 100, Submit 8 6 101, Submit 9 5 102]"
  have a: "Aggregate \<notin> set ?cs"
    by simp
  have b: "length (submitted_keys ?cs) < 2 ^ 32"
    by simp
  have c: "choiceKey 5 \<in> set (choiceList (run demoFHE deployed (?cs @ [Aggregate])))"
    by code_simp
  have d: "count_list (submitted_keys ?cs) (choiceKey 5) = 2"
    by code_simp
  have e: "length (submitted_keys ?cs) = 3"
    by simp
  show ?thesis
    using conservation_single_aggregate [OF demo_handles_initialized demo_homomorphic a b]
      demo_handles_initialized demo_homomorphic a b c d e
    by auto
qed

text \<open>
  C4 (counterexample). The claim says that a submission never changes the registry. The
  first vote on the deployed contract appends the 32 bytes of its handle to \<open>choiceList\<close>
  and initializes the tally under them.
\<close>

theorem submit_registers_counterexample:
  "choiceList deployed = []
   \<and> \<not> isInitialized (encryptedChoiceCount deployed (choiceKey 5))
   \<and> choiceList (transact demoFHE deployed (Submit 7 5 100)) = [choiceKey 5]
   \<and> isInitialized (encryptedChoiceCount (transact demoFHE deployed (Submit 7 5 100)) (choiceKey 5))"
  by code_simp

text \<open>
  C4 (as amended). \<open>submitEncryptedVote\<close> leaves the choice list and the tallies as they are
  exactly when the tally under the key of the vote (the 32 bytes of its handle) is
  initialized; otherwise it appends this key to the list and sets its tally to the encrypted
  zero.
\<close>

theorem submit_registers_unseen_key:
  assumes "submitEncryptedVote F s voter enc now = Inr s'"
  shows "(isInitialized (encryptedChoiceCount s (choiceKey enc)) \<longrightarrow>
            choiceList s' = choiceList s \<and> encryptedChoiceCount s' = encryptedChoiceCount s)
       \<and> (\<not> isInitialized (encryptedChoiceCount s (choiceKey enc)) \<longrightarrow>
            choiceList s' = choiceList s @ [choiceKey enc] \<and>
            encryptedChoiceCount s' = (encryptedChoiceCount s)(choiceKey enc := fhe_asEuint32 F 0))"
  using submit_effect(4,5) [OF assms] by simp

theorem submit_registers_unseen_key_witness:
  "(\<exists>s'. submitEncryptedVote demoFHE deployed 7 5 100 = Inr s'
      \<and> choiceList s' = choiceList deployed @ [choiceKey 5])
   \<and> (\<exists>s'. submitEncryptedVote demoFHE (transact demoFHE deployed (Submit 7 5 100)) 8 5 101 = Inr s'
      \<and> choiceList s' = choiceList (transact demoFHE deployed (Submit 7 5 100)))"
proof -
  obtain s1 where s1: "submitEncryptedVote demoFHE deployed 7 5 100 = Inr s1"
    using submit_succeeds [of deployed demoFHE 7 5 100] by (auto simp: deployed_def)
  have u: "\<not> isInitialized (encryptedChoiceCount deployed (choiceKey 5))"
    by (simp add: deployed_def isInitialized_def)
  have t: "transact demoFHE deployed (Submit 7 5 100) = s1"
    using s1 by (simp add: transact_def)
  have "voteCount s1 \<noteq> - 1"
    using submit_effect(2) [OF s1] by (simp add: deployed_def)
  then obtain s2 where s2: "submitEncryptedVote demoFHE s1 8 5 101 = Inr s2"
    using submit_succeeds [of s1 demoFHE 8 5 101] by auto
  have i: "isInitialized (encryptedChoiceCount s1 (choiceKey 5))"
    using submit_effect(4) [OF s1] u demo_handles_initialized
    by (simp add: fhe_handles_initialized_def)
  show ?thesis
    using submit_registers_unseen_key [OF s1] submit_registers_unseen_key [OF s2] s1 s2 u i t
    by simp
qed



text \<open>
  C7. On every storage that the deployed contract can reach, \<open>requestChoiceDecryption\<close>
  reverts with "Choice not found", leaving the storage as it was, when the tally of the choice
  is not initialized. When it is initialized (and the counter of the library is not
  exhausted) the call succeeds: it stores the hash of the choice and the handle of the tally
  under the identifier that the library returns, logs this identifier and leaves the other
  commitments alone. The identifier is fresh: no earlier event carries it and nothing was
  stored under it.
\<close>

theorem request_checks_registration:
  "(\<not> isInitialized (encryptedChoiceCount (run F deployed cs) choice) \<longrightarrow>
      requestChoiceDecryption F (run F deployed cs) choice = Inl ChoiceNotFound
      \<and> transact F (run F deployed cs) (Request choice) = run F deployed cs)
   \<and> (isInitialized (encryptedChoiceCount (run F deployed cs) choice)
        \<and> counterRequest (run F deployed cs) \<noteq> - 1 \<longrightarrow>
      (\<exists>s'. requestChoiceDecryption F (run F deployed cs) choice = Inr s'
         \<and> decryptionRequests s' (counterRequest (run F deployed cs)) = keccak256 F choice
         \<and> requestedHandles s' (counterRequest (run F deployed cs)) =
              [encryptedChoiceCount (run F deployed cs) choice]
         \<and> events s' = events (run F deployed cs) @
              [DecryptionRequested (counterRequest (run F deployed cs))]
         \<and> counterRequest (run F deployed cs) \<notin> set (issued_ids (events (run F deployed cs)))
         \<and> decryptionRequests (run F deployed cs) (counterRequest (run F deployed cs)) = 0
         \<and> (\<forall>r. r \<noteq> counterRequest (run F deployed cs) \<longrightarrow>
               decryptionRequests s' r = decryptionRequests (run F deployed cs) r)))"
proof (intro conjI impI)
  assume n: "\<not> isInitialized (encryptedChoiceCount (run F deployed cs) choice)"
  show "requestChoiceDecryption F (run F deployed cs) choice = Inl ChoiceNotFound"
    using n by (rule request_not_found)
  then show "transact F (run F deployed cs) (Request choice) = run F deployed cs"
    by (simp add: transact_def)
next
  let ?s = "run F deployed cs"
  assume "isInitialized (encryptedChoiceCount ?s choice) \<and> counterRequest ?s \<noteq> - 1"
  then obtain s' where s': "requestChoiceDecryption F ?s choice = Inr s'"
    using request_succeeds by blast
  note e = request_effect [OF s']
  have fresh: "counterRequest ?s \<notin> set (issued_ids (events ?s))"
    using run_ids_below_counter [of F cs] by (auto simp: ids_below_counter_def)
  have empty: "decryptionRequests ?s (counterRequest ?s) = 0"
    using run_unissued_empty [of F cs] by (simp add: unissued_empty_def)
  show "\<exists>s'. requestChoiceDecryption F ?s choice = Inr s'
         \<and> decryptionRequests s' (counterRequest ?s) = keccak256 F choice
         \<and> requestedHandles s' (counterRequest ?s) = [encryptedChoiceCount ?s choice]
         \<and> events s' = events ?s @ [DecryptionRequested (counterRequest ?s)]
         \<and> counterRequest ?s \<notin> set (issued_ids (events ?s))
         \<and> decryptionRequests ?s (counterRequest ?s) = 0
         \<and> (\<forall>r. r \<noteq> counterRequest ?s \<longrightarrow> decryptionRequests s' r = decryptionRequests ?s r)"
    using s' fresh empty e(7,9,10) by (intro exI [of _ s']) simp
qed

theorem request_checks_registration_witness:
  "\<not> isInitialized (encryptedChoiceCount (run demoFHE deployed [Submit 7 5 100]) (choiceKey 6))
   \<and> requestChoiceDecryption demoFHE (run demoFHE deployed [Submit 7 5 100]) (choiceKey 6)
       = Inl ChoiceNotFound
   \<and> isInitialized (encryptedChoiceCount (run demoFHE deployed [Submit 7 5 100]) (choiceKey 5))
   \<and> counterRequest (run demoFHE deployed [Submit 7 5 100]) \<noteq> - 1
   \<and> (\<exists>s'. requestChoiceDecryption demoFHE (run demoFHE deployed [Submit 7 5 100]) (choiceKey 5)
         = Inr s'
       \<and> decryptionRequests s' (counterRequest (run demoFHE deployed [Submit 7 5 100]))
         = keccak256 demoFHE (choiceKey 5))"
proof -
  have a: "\<not> isInitialized (encryptedChoiceCount (run demoFHE deployed [Submit 7 5 100]) (choiceKey 6))"
    by code_simp
  have b: "isInitialized (encryptedChoiceCount (run demoFHE deployed [Submit 7 5 100]) (choiceKey 5))"
    by code_simp
  have c: "counterRequest (run demoFHE deployed [Submit 7 5 100]) \<noteq> - 1"
    by code_simp
  show ?thesis
    using request_checks_registration [of demoFHE "[Submit 7 5 100]" "choiceKey 6"]
      request_checks_registration [of demoFHE "[Submit 7 5 100]" "choiceKey 5"] a b c
    by blast
qed

text \<open>
  C8. A callback whose proof \<open>FHE.checkSignatures\<close> rejects reverts, so the storage is as
  before. When the commitment of the request resolves to a listed choice the revert is the one
  of \<open>FHE.checkSignatures\<close>, and after it a callback for the same request with a proof that
  validates succeeds and logs the result.
\<close>

theorem invalid_proof_isolated:
  assumes "\<not> FHE_checkSignatures F s requestId cleartexts prf"
  shows "(\<exists>e. decryptChoiceCount F s requestId cleartexts prf = Inl e)
       \<and> transact F s (Callback requestId cleartexts prf) = s
       \<and> (\<forall>choice. getChoiceFromHash F s (decryptionRequests s requestId) = Inr choice \<longrightarrow>
            decryptChoiceCount F s requestId cleartexts prf = Inl InvalidSignatures
            \<and> (\<forall>cleartexts' prf' n.
                 FHE_checkSignatures F s requestId cleartexts' prf'
                 \<and> abi_decode_uint32 cleartexts' = Some n \<longrightarrow>
                 decryptChoiceCount F (transact F s (Callback requestId cleartexts prf))
                     requestId cleartexts' prf'
                   = Inr (s\<lparr> events := events s @ [VoteCountDecrypted choice n] \<rparr>)))"
proof -
  have fail: "\<exists>e. decryptChoiceCount F s requestId cleartexts prf = Inl e"
    using assms by (simp add: callback_invalid split: sum.splits)
  then have same: "transact F s (Callback requestId cleartexts prf) = s"
    by (auto simp: transact_def)
  show ?thesis
    using fail same assms by (auto simp: callback_invalid callback_succeeds)
qed

theorem invalid_proof_isolated_witness:
  "\<not> FHE_checkSignatures demoFHE (run demoFHE deployed [Submit 7 5 100, Request (choiceKey 5)])
       0 (bytes32ToString 0) [1]
   \<and> decryptChoiceCount demoFHE (run demoFHE deployed [Submit 7 5 100, Request (choiceKey 5)])
       0 (bytes32ToString 0) [1] = Inl InvalidSignatures
   \<and> (\<exists>s'. decryptChoiceCount demoFHE
        (transact demoFHE (run demoFHE deployed [Submit 7 5 100, Request (choiceKey 5)])
           (Callback 0 (bytes32ToString 0) [1]))
        0 (bytes32ToString 0) (bytes32ToString 0) = Inr s')"
proof -
  let ?s = "run demoFHE deployed [Submit 7 5 100, Request (choiceKey 5)]"
  have a: "\<not> FHE_checkSignatures demoFHE ?s 0 (bytes32ToString 0) [1]"
    by code_simp
  have b: "getChoiceFromHash demoFHE ?s (decryptionRequests ?s 0) = Inr (choiceKey 5)"
    by code_simp
  have c: "FHE_checkSignatures demoFHE ?s 0 (bytes32ToString 0) (bytes32ToString 0)"
    by code_simp
  have d: "abi_decode_uint32 (bytes32ToString 0) = Some 0"
    by code_simp
  show ?thesis
    using invalid_proof_isolated [OF a] a b c d by blast
qed

text \<open>
  C9. \<open>submitEncryptedVote\<close> never looks at earlier votes of the voter (\<open>onlyVoter\<close> is an
  empty placeholder that the function does not even carry): its only revert is the overflow
  of \<open>voteCount\<close>. A submission appends the entry under the next index and logs it, and a
  second submission with the same \<open>voterId\<close> does the same under the index after it.
\<close>

theorem submit_accepts_repeated_voter:
  "(submitEncryptedVote F s voter enc now = Inl ArithmeticOverflow \<longleftrightarrow> voteCount s = - 1)
   \<and> (voteCount s \<noteq> - 1 \<longrightarrow>
        (\<exists>s'. submitEncryptedVote F s voter enc now = Inr s'
           \<and> voteCount s' = voteCount s + 1
           \<and> encryptedVotes s' (voteCount s + 1) =
               \<lparr> voterId = voter, encryptedChoice = enc, timestamp = now \<rparr>
           \<and> (\<forall>i. i \<noteq> voteCount s + 1 \<longrightarrow> encryptedVotes s' i = encryptedVotes s i)
           \<and> events s' = events s @ [VoteSubmitted voter now]
           \<and> (voteCount s' \<noteq> - 1 \<longrightarrow>
                (\<exists>s''. submitEncryptedVote F s' voter enc2 now2 = Inr s''
                   \<and> voteCount s'' = voteCount s + 2
                   \<and> encryptedVotes s'' (voteCount s + 1) =
                       \<lparr> voterId = voter, encryptedChoice = enc, timestamp = now \<rparr>
                   \<and> encryptedVotes s'' (voteCount s + 2) =
                       \<lparr> voterId = voter, encryptedChoice = enc2, timestamp = now2 \<rparr>
                   \<and> events s'' = events s @ [VoteSubmitted voter now, VoteSubmitted voter now2]))))"
proof (intro conjI impI)
  show "submitEncryptedVote F s voter enc now = Inl ArithmeticOverflow \<longleftrightarrow> voteCount s = - 1"
    by (simp add: submitEncryptedVote_def Let_def)
next
  assume ok: "voteCount s \<noteq> - 1"
  then obtain s' where s': "submitEncryptedVote F s voter enc now = Inr s'"
    using submit_succeeds by blast
  note e = submit_effect [OF s']
  have second: "\<exists>s''. submitEncryptedVote F s' voter enc2 now2 = Inr s''
         \<and> voteCount s'' = voteCount s + 2
         \<and> encryptedVotes s'' (voteCount s + 1) =
             \<lparr> voterId = voter, encryptedChoice = enc, timestamp = now \<rparr>
         \<and> encryptedVotes s'' (voteCount s + 2) =
             \<lparr> voterId = voter, encryptedChoice = enc2, timestamp = now2 \<rparr>
         \<and> events s'' = events s @ [VoteSubmitted voter now, VoteSubmitted voter now2]"
    if ok': "voteCount s' \<noteq> - 1"
  proof -
    obtain s'' where s'': "submitEncryptedVote F s' voter enc2 now2 = Inr s''"
      using ok' submit_succeeds by blast
    note e' = submit_effect [OF s'']
    have a: "voteCount s'' = voteCount s + 2"
      using e'(2) e(2) by simp
    have b: "encryptedVotes s'' (voteCount s + 1) =
        \<lparr> voterId = voter, encryptedChoice = enc, timestamp = now \<rparr>"
      unfolding e'(3) e(2,3) by simp
    have c: "encryptedVotes s'' (voteCount s + 2) =
        \<lparr> voterId = voter, encryptedChoice = enc2, timestamp = now2 \<rparr>"
      unfolding e'(3) e(2,3) by simp
    have d: "events s'' = events s @ [VoteSubmitted voter now, VoteSubmitted voter now2]"
      unfolding e'(9) e(9) by simp
    show ?thesis
      using s'' a b c d by blast
  qed
  show "\<exists>s'. submitEncryptedVote F s voter enc now = Inr s'
           \<and> voteCount s' = voteCount s + 1
           \<and> encryptedVotes s' (voteCount s + 1) =
               \<lparr> voterId = voter, encryptedChoice = enc, timestamp = now \<rparr>
           \<and> (\<forall>i. i \<noteq> voteCount s + 1 \<longrightarrow> encryptedVotes s' i = encryptedVotes s i)
           \<and> events s' = events s @ [VoteSubmitted voter now]
           \<and> (voteCount s' \<noteq> - 1 \<longrightarrow>
                (\<exists>s''. submitEncryptedVote F s' voter enc2 now2 = Inr s''
                   \<and> voteCount s'' = voteCount s + 2
                   \<and> encryptedVotes s'' (voteCount s + 1) =
                       \<lparr> voterId = voter, encryptedChoice = enc, timestamp = now \<rparr>
                   \<and> encryptedVotes s'' (voteCount s + 2) =
                       \<lparr> voterId = voter, encryptedChoice = enc2, timestamp = now2 \<rparr>
                   \<and> events s'' = events s @ [VoteSubmitted voter now, VoteSubmitted voter now2]))"
    using s' second e(2,3,9) by (intro exI [of _ s']) simp
qed

theorem submit_accepts_repeated_voter_witness:
  "voteCount deployed \<noteq> - 1
   \<and> (\<exists>s'. submitEncryptedVote demoFHE deployed 7 5 100 = Inr s'
        \<and> voteCount s' = 1 \<and> voteCount s' \<noteq> - 1
        \<and> (\<exists>s''. submitEncryptedVote demoFHE s' 7 6 101 = Inr s''
              \<and> voteCount s'' = 2
              \<and> voterId (encryptedVotes s'' 1) = 7 \<and> voterId (encryptedVotes s'' 2) = 7))"
proof -
  have v: "voteCount deployed = 0"
    by (simp add: deployed_def)
  show ?thesis
    using submit_accepts_repeated_voter [of demoFHE deployed 7 5 100 6 101]
    unfolding v by auto
qed

text \<open>
  C10. The registry invariant (no key listed twice, every listed key with an initialized
  tally) holds at deployment and is kept by every transaction, hence on every reachable
  storage. A transaction leaves the old list as a prefix of the new one, and a key that it
  adds had no initialized tally before and has the encrypted zero after. The tally of a key
  that is listed already is not initialized again: an aggregation applies to it one
  homomorphic addition of 1 for each ledger entry of the key, and every other transaction
  leaves it as it is.
\<close>

theorem registry_invariant:
  assumes "fhe_handles_initialized F"
  shows "registry_inv deployed
       \<and> (registry_inv s \<longrightarrow>
            registry_inv (transact F s c)
            \<and> prefix (choiceList s) (choiceList (transact F s c))
            \<and> (\<forall>k \<in> set (choiceList (transact F s c)) - set (choiceList s).
                  \<not> isInitialized (encryptedChoiceCount s k)
                  \<and> encryptedChoiceCount (transact F s c) k = fhe_asEuint32 F 0)
            \<and> (\<forall>k \<in> set (choiceList s).
                  encryptedChoiceCount (transact F s c) k =
                    (if c = Aggregate
                     then (add_one F ^^ count_list (ledger_keys s) k) (encryptedChoiceCount s k)
                     else encryptedChoiceCount s k)))
       \<and> registry_inv (run F deployed cs)
       \<and> prefix (choiceList (run F deployed cs)) (choiceList (run F deployed (cs @ cs')))"
proof -
  have grow: "prefix (choiceList s0) (choiceList (run F s0 ds))" for s0 ds
  proof (induction ds arbitrary: s0)
    case Nil
    show ?case by simp
  next
    case (Cons d ds)
    have "prefix (choiceList s0) (choiceList (transact F s0 d))"
      by (rule choiceList_step)
    also have "prefix (choiceList (transact F s0 d)) (choiceList (run F (transact F s0 d) ds))"
      by (rule Cons.IH)
    finally show ?case by simp
  qed
  have new: "\<forall>k \<in> set (choiceList (transact F s c)) - set (choiceList s).
      \<not> isInitialized (encryptedChoiceCount s k)
      \<and> encryptedChoiceCount (transact F s c) k = fhe_asEuint32 F 0"
    using new_key_step [of _ F s c] by blast
  have old: "\<forall>k \<in> set (choiceList s).
      encryptedChoiceCount (transact F s c) k =
        (if c = Aggregate
         then (add_one F ^^ count_list (ledger_keys s) k) (encryptedChoiceCount s k)
         else encryptedChoiceCount s k)"
    if "registry_inv s"
    using listed_tally_step [OF that, of _ F c] by blast
  show ?thesis
    using assms new old grow [of "run F deployed cs" cs']
    by (simp add: deployed_invariants registry_inv_step choiceList_step run_registry_inv run_append)
qed

theorem registry_invariant_witness:
  "fhe_handles_initialized demoFHE
   \<and> distinct (choiceList (run demoFHE deployed [Submit 7 5 100, Aggregate]))
   \<and> distinct (choiceList
         (transact demoFHE (run demoFHE deployed [Submit 7 5 100, Aggregate]) (Submit 8 6 101)))
   \<and> isInitialized (encryptedChoiceCount
         (transact demoFHE (run demoFHE deployed [Submit 7 5 100, Aggregate]) (Submit 8 6 101))
         (choiceKey 6))
   \<and> choiceList (transact demoFHE (run demoFHE deployed [Submit 7 5 100, Aggregate]) (Submit 8 6 101))
       = [choiceKey 5, choiceKey 6]
   \<and> choiceKey 5 \<in> set (choiceList (run demoFHE deployed [Submit 7 5 100, Aggregate]))
   \<and> fhe_decrypt demoFHE (encryptedChoiceCount
         (run demoFHE deployed [Submit 7 5 100, Aggregate]) (choiceKey 5)) = 1
   \<and> encryptedChoiceCount
         (transact demoFHE (run demoFHE deployed [Submit 7 5 100, Aggregate]) (Submit 9 5 102))
         (choiceKey 5)
       = encryptedChoiceCount (run demoFHE deployed [Submit 7 5 100, Aggregate]) (choiceKey 5)"
proof -
  let ?s = "run demoFHE deployed [Submit 7 5 100, Aggregate]"
  have l: "choiceList (transact demoFHE ?s (Submit 8 6 101)) = [choiceKey 5, choiceKey 6]"
    by code_simp
  have m: "choiceKey 5 \<in> set (choiceList ?s)"
    by code_simp
  have p: "fhe_decrypt demoFHE (encryptedChoiceCount ?s (choiceKey 5)) = 1"
    by code_simp
  have inv: "registry_inv ?s"
    using registry_invariant [OF demo_handles_initialized, of ?s "Submit 8 6 101"
        "[Submit 7 5 100, Aggregate]" "[]"]
    by simp
  have a: "distinct (choiceList ?s)
      \<and> distinct (choiceList (transact demoFHE ?s (Submit 8 6 101)))
      \<and> isInitialized (encryptedChoiceCount (transact demoFHE ?s (Submit 8 6 101)) (choiceKey 6))"
    using registry_invariant [OF demo_handles_initialized, of ?s "Submit 8 6 101"
        "[Submit 7 5 100, Aggregate]" "[]"] l
    unfolding registry_inv_def by simp
  have b: "encryptedChoiceCount (transact demoFHE ?s (Submit 9 5 102)) (choiceKey 5)
      = encryptedChoiceCount ?s (choiceKey 5)"
    using registry_invariant [OF demo_handles_initialized, of ?s "Submit 9 5 102"
        "[Submit 7 5 100, Aggregate]" "[]"] inv m
    by simp
  show ?thesis
    using demo_handles_initialized a l m p b by blast
qed

end
